theory Spec2Isabelle
  imports Main "HOL-Library.Word"
begin

section \<open>Memory model for \<open>pointer_array.c\<close>\<close>

text \<open>
  The four functions of \<open>pointer_array.c\<close> walk \<open>int\<close> arrays through raw pointers,
  and two of them write through a pointer that may alias another argument. The model
  therefore keeps an explicit store.

  \<^item> A C \<open>int\<close> is a 32-bit word; \<open>sint\<close> reads it as two's complement and \<open>+\<close> wraps.
  \<^item> A pointer to \<open>int\<close> is an address counted in \<open>int\<close>-sized cells, so that \<open>++p\<close> is
    \<open>p + 1\<close> and \<open>arr + len\<close> is addition; address \<open>0\<close> is \<open>NULL\<close>.
  \<^item> The store maps the allocated cells to their contents. A read or write through
    \<open>NULL\<close> or through an address that is not allocated is undefined behaviour in C;
    the model returns \<open>None\<close> there, so that a result \<open>Some \<dots>\<close> says that every
    access of the run stayed inside allocated memory.
  \<^item> \<open>size_t\<close> is an unsigned count; the code only compares it with \<open>0\<close> and adds it
    to a pointer, so it is a \<open>nat\<close>.
\<close>

type_synonym cint = "32 word"
type_synonym ptr = nat
type_synonym heap = "ptr \<rightharpoonup> cint"

definition NULL :: ptr where
  "NULL = 0"

definition INT_MIN :: cint where
  "INT_MIN = - (2 ^ 31)"

definition load :: "heap \<Rightarrow> ptr \<Rightarrow> cint option" where
  "load h p = (if p = NULL then None else h p)"

definition store :: "heap \<Rightarrow> ptr \<Rightarrow> cint \<Rightarrow> heap option" where
  "store h p v = (if p = NULL \<or> h p = None then None else Some (h(p \<mapsto> v)))"

text \<open>
  A present sequence of \<open>len\<close> elements: a non-null pointer whose \<open>len\<close> cells are
  allocated. A present slot is the same with one cell.
\<close>

definition valid_seq :: "heap \<Rightarrow> ptr \<Rightarrow> nat \<Rightarrow> bool" where
  "valid_seq h arr len \<longleftrightarrow> arr \<noteq> NULL \<and> (\<forall>i \<in> {0..<len}. h (arr + i) \<noteq> None)"

definition cells :: "ptr \<Rightarrow> nat \<Rightarrow> ptr set" where
  "cells arr len = {arr..<arr + len}"

text \<open>The contents of a sequence, read as mathematical integers.\<close>

definition elems :: "heap \<Rightarrow> ptr \<Rightarrow> nat \<Rightarrow> int list" where
  "elems h arr len = map (\<lambda>i. sint (the (h (arr + i)))) [0..<len]"

section \<open>\<open>array_sum_ptr\<close>\<close>

text \<open>
  \<^verbatim>\<open>while (p < end) { sum += *p; ++p; }\<close>
  The accumulator \<open>acc\<close> is the source's \<open>int sum\<close>, and \<open>endp\<close> its \<open>end\<close>. The source
  does no overflow handling (C leaves signed overflow undefined); the addition of the
  model is the two's-complement wrap-around of the 32-bit word, which is what the
  hardware addition does.
\<close>

function sum_loop :: "heap \<Rightarrow> ptr \<Rightarrow> ptr \<Rightarrow> cint \<Rightarrow> cint option" where
  "sum_loop h p endp acc =
     (if p < endp then
        (case load h p of
           None \<Rightarrow> None
         | Some v \<Rightarrow> sum_loop h (p + 1) endp (acc + v))
      else Some acc)"
  by pat_completeness auto
termination
  by (relation "measure (\<lambda>(h, p, endp, acc). endp - p)") auto

declare sum_loop.simps [simp del]

definition array_sum_ptr :: "heap \<Rightarrow> ptr \<Rightarrow> nat \<Rightarrow> cint option" where
  "array_sum_ptr h arr len =
     (if arr = NULL \<and> len > 0 then Some 0
      else sum_loop h arr (arr + len) 0)"

section \<open>\<open>array_reverse_ptr\<close>\<close>

text \<open>
  \<^verbatim>\<open>while (left < right) { --right; if (left >= right) break;
     tmp = *left; *left = *right; *right = tmp; ++left; }\<close>
  Inside the loop \<open>left < right\<close>, so \<open>right\<close> is positive and \<open>right - 1\<close> is the
  C decrement.
\<close>

function reverse_loop :: "heap \<Rightarrow> ptr \<Rightarrow> ptr \<Rightarrow> heap option" where
  "reverse_loop h left right =
     (if left < right then
        (let right' = right - 1 in
         if left \<ge> right' then Some h
         else
           (case load h left of
              None \<Rightarrow> None
            | Some tmp \<Rightarrow>
                (case load h right' of
                   None \<Rightarrow> None
                 | Some v \<Rightarrow>
                     (case store h left v of
                        None \<Rightarrow> None
                      | Some h1 \<Rightarrow>
                          (case store h1 right' tmp of
                             None \<Rightarrow> None
                           | Some h2 \<Rightarrow> reverse_loop h2 (left + 1) right')))))
      else Some h)"
  by pat_completeness auto
termination
  by (relation "measure (\<lambda>(h, left, right). right - left)") auto

declare reverse_loop.simps [simp del]

text \<open>The result is the returned status together with the store after the call.\<close>

definition array_reverse_ptr :: "heap \<Rightarrow> ptr \<Rightarrow> nat \<Rightarrow> (cint \<times> heap) option" where
  "array_reverse_ptr h arr len =
     (if arr = NULL \<and> len > 0 then Some (- 1, h)
      else
        (case reverse_loop h arr (arr + len) of
           None \<Rightarrow> None
         | Some h' \<Rightarrow> Some (0, h')))"

section \<open>\<open>array_copy_ptr\<close>\<close>

text \<open>
  \<^verbatim>\<open>while (s < end) { *d = *s; ++d; ++s; }\<close>
\<close>

function copy_loop :: "heap \<Rightarrow> ptr \<Rightarrow> ptr \<Rightarrow> ptr \<Rightarrow> heap option" where
  "copy_loop h d s endp =
     (if s < endp then
        (case load h s of
           None \<Rightarrow> None
         | Some v \<Rightarrow>
             (case store h d v of
                None \<Rightarrow> None
              | Some h' \<Rightarrow> copy_loop h' (d + 1) (s + 1) endp))
      else Some h)"
  by pat_completeness auto
termination
  by (relation "measure (\<lambda>(h, d, s, endp). endp - s)") auto

declare copy_loop.simps [simp del]

definition array_copy_ptr :: "heap \<Rightarrow> ptr \<Rightarrow> ptr \<Rightarrow> nat \<Rightarrow> (cint \<times> heap) option" where
  "array_copy_ptr h dst src len =
     (if (dst = NULL \<or> src = NULL) \<and> len > 0 then Some (- 1, h)
      else
        (case copy_loop h dst src (src + len) of
           None \<Rightarrow> None
         | Some h' \<Rightarrow> Some (0, h')))"

section \<open>\<open>array_max_ptr\<close>\<close>

text \<open>
  \<^verbatim>\<open>while (p < end) { if (*p > maxv) maxv = *p; ++p; }\<close>
  The comparison is the signed one of \<open>int\<close>.
\<close>

function max_loop :: "heap \<Rightarrow> ptr \<Rightarrow> ptr \<Rightarrow> cint \<Rightarrow> cint option" where
  "max_loop h p endp maxv =
     (if p < endp then
        (case load h p of
           None \<Rightarrow> None
         | Some v \<Rightarrow> max_loop h (p + 1) endp (if maxv <s v then v else maxv))
      else Some maxv)"
  by pat_completeness auto
termination
  by (relation "measure (\<lambda>(h, p, endp, maxv). endp - p)") auto

declare max_loop.simps [simp del]

text \<open>\<^verbatim>\<open>if (ok != NULL) { *ok = v; }\<close>\<close>

definition set_flag :: "heap \<Rightarrow> ptr \<Rightarrow> cint \<Rightarrow> heap option" where
  "set_flag h ok v = (if ok \<noteq> NULL then store h ok v else Some h)"

definition array_max_ptr :: "heap \<Rightarrow> ptr \<Rightarrow> nat \<Rightarrow> ptr \<Rightarrow> (cint \<times> heap) option" where
  "array_max_ptr h arr len ok =
     (case set_flag h ok 0 of
        None \<Rightarrow> None
      | Some h1 \<Rightarrow>
          if arr = NULL \<or> len = 0 then Some (INT_MIN, h1)
          else
            (case load h1 arr of
               None \<Rightarrow> None
             | Some v0 \<Rightarrow>
                 (case max_loop h1 (arr + 1) (arr + len) v0 of
                    None \<Rightarrow> None
                  | Some maxv \<Rightarrow>
                      (case set_flag h1 ok 1 of
                         None \<Rightarrow> None
                       | Some h2 \<Rightarrow> Some (maxv, h2)))))"

section \<open>Stores after a call\<close>

text \<open>
  The store that \<open>reverse_loop\<close> leaves: the cells from \<open>left\<close> up to \<open>right\<close>
  (excluded) in reverse order, every other cell as it was.
\<close>

definition mirror :: "heap \<Rightarrow> ptr \<Rightarrow> ptr \<Rightarrow> heap" where
  "mirror h left right = (\<lambda>q. if left \<le> q \<and> q < right then h (left + right - 1 - q) else h q)"

text \<open>
  The store that \<open>copy_loop\<close> leaves when the two ranges are disjoint: the \<open>n\<close> cells
  from \<open>d\<close> hold what the \<open>n\<close> cells from \<open>s\<close> held, every other cell is as it was.
\<close>

definition copied :: "heap \<Rightarrow> ptr \<Rightarrow> ptr \<Rightarrow> nat \<Rightarrow> heap" where
  "copied h d s n = (\<lambda>q. if d \<le> q \<and> q < d + n then h (s + (q - d)) else h q)"

section \<open>Loop exits\<close>

text \<open>
  The loop equations are kept out of the simplifier (they rewrite a loop by itself);
  a loop whose condition is false returns at once.
\<close>

lemma sum_loop_done [simp]: "\<not> p < endp \<Longrightarrow> sum_loop h p endp acc = Some acc"
  by (subst sum_loop.simps) simp

lemma reverse_loop_done [simp]: "\<not> left < right \<Longrightarrow> reverse_loop h left right = Some h"
  by (subst reverse_loop.simps) simp

lemma copy_loop_done [simp]: "\<not> s < endp \<Longrightarrow> copy_loop h d s endp = Some h"
  by (subst copy_loop.simps) simp

lemma max_loop_done [simp]: "\<not> p < endp \<Longrightarrow> max_loop h p endp maxv = Some maxv"
  by (subst max_loop.simps) simp

section \<open>Present sequences\<close>

lemma valid_seq_Suc:
  "valid_seq h p (Suc n) \<longleftrightarrow> p \<noteq> NULL \<and> h p \<noteq> None \<and> valid_seq h (Suc p) n"
proof -
  have "(\<forall>i\<in>{0..<Suc n}. h (p + i) \<noteq> None) \<longleftrightarrow>
        h p \<noteq> None \<and> (\<forall>i\<in>{0..<n}. h (Suc p + i) \<noteq> None)"
  proof (intro iffI conjI ballI)
    assume a: "\<forall>i\<in>{0..<Suc n}. h (p + i) \<noteq> None"
    from a have "h (p + 0) \<noteq> None" by (rule bspec) simp
    then show "h p \<noteq> None" by simp
    fix i assume "i \<in> {0..<n}"
    then have "Suc i \<in> {0..<Suc n}" by simp
    with a have "h (p + Suc i) \<noteq> None" by blast
    then show "h (Suc p + i) \<noteq> None" by simp
  next
    fix i
    assume b: "h p \<noteq> None \<and> (\<forall>i\<in>{0..<n}. h (Suc p + i) \<noteq> None)"
      and i: "i \<in> {0..<Suc n}"
    show "h (p + i) \<noteq> None"
    proof (cases i)
      case 0
      with b show ?thesis by simp
    next
      case (Suc j)
      with i have "j \<in> {0..<n}" by simp
      with b have "h (Suc p + j) \<noteq> None" by blast
      with Suc show ?thesis by simp
    qed
  qed
  then show ?thesis by (auto simp: valid_seq_def NULL_def)
qed

lemma elems_Suc:
  "elems h p (Suc n) = sint (the (h p)) # elems h (Suc p) n"
proof -
  have "[0..<Suc n] = 0 # map Suc [0..<n]"
    by (simp add: upt_conv_Cons map_Suc_upt del: upt_Suc)
  then show ?thesis by (simp add: elems_def comp_def del: upt_Suc)
qed

lemma valid_seq_cells:
  assumes "valid_seq h p n" and "p \<le> q" and "q < p + n"
  shows "h q \<noteq> None"
proof -
  from assms(2,3) have "q - p \<in> {0..<n}" by auto
  with assms(1) have "h (p + (q - p)) \<noteq> None"
    unfolding valid_seq_def by blast
  with assms(2) show ?thesis by simp
qed

lemma valid_seq_upd:
  "valid_seq h p n \<Longrightarrow> valid_seq (h(a \<mapsto> v)) p n"
  by (simp add: valid_seq_def)

section \<open>Sum\<close>

lemma sum_loop_elems:
  "valid_seq h p n \<Longrightarrow>
   sum_loop h p (p + n) acc = Some (acc + word_of_int (sum_list (elems h p n)))"
proof (induction n arbitrary: p acc)
  case 0
  then show ?case by (simp add: elems_def)
next
  case (Suc n)
  from Suc.prems obtain v where v: "h p = Some v" and p: "p \<noteq> NULL"
    and rest: "valid_seq h (Suc p) n"
    by (auto simp: valid_seq_Suc)
  have "sum_loop h p (p + Suc n) acc = sum_loop h (Suc p) (Suc p + n) (acc + v)"
    by (subst sum_loop.simps) (simp add: load_def p v)
  also have "\<dots> = Some (acc + v + word_of_int (sum_list (elems h (Suc p) n)))"
    by (rule Suc.IH [OF rest])
  finally show ?case
    by (simp add: elems_Suc v add.assoc)
qed

text \<open>
  C4: for a present sequence of \<open>len\<close> elements, \<open>array_sum_ptr\<close> returns the
  mathematical sum of the elements reduced to the 32-bit two's-complement range:
  the word of that integer, whose signed value is the sum wrapped modulo \<open>2^32\<close>
  into \<open>[-2^31, 2^31)\<close>.
\<close>

theorem array_sum_ptr_wraps:
  "valid_seq h arr len \<Longrightarrow>
   (\<exists>r. array_sum_ptr h arr len = Some r \<and>
        r = word_of_int (sum_list (elems h arr len)) \<and>
        sint r = (sum_list (elems h arr len) + 2 ^ 31) mod 2 ^ 32 - 2 ^ 31)"
  using sum_loop_elems [of h arr len 0]
  by (simp add: array_sum_ptr_def valid_seq_def sint_sbintrunc'
      signed_take_bit_eq_take_bit_shift take_bit_eq_mod)

theorem array_sum_ptr_wraps_witness:
  "valid_seq (Map.empty(4 \<mapsto> 2147483647, 5 \<mapsto> 1)) 4 2 \<and>
   array_sum_ptr (Map.empty(4 \<mapsto> 2147483647, 5 \<mapsto> 1)) 4 2 = Some (- 2147483648)"
proof -
  have v: "valid_seq (Map.empty(4 \<mapsto> 2147483647, 5 \<mapsto> 1)) 4 2"
    by (simp add: valid_seq_def NULL_def)
  have e: "elems (Map.empty(4 \<mapsto> 2147483647, 5 \<mapsto> 1)) 4 2 = [2147483647, 1]"
    by (simp add: elems_def upt_rec)
  from array_sum_ptr_wraps [OF v] v show ?thesis
    by (simp add: e)
qed

text \<open>
  C7: \<open>array_sum_ptr\<close> returns 0 in both degenerate cases. With an absent reference
  and a positive length it returns 0 whatever the store is (also the empty store,
  where any read would fault); with length 0 it returns 0 for every reference,
  absent or present.
\<close>

theorem array_sum_ptr_degenerate:
  "(0 < len \<longrightarrow> array_sum_ptr h NULL len = Some 0) \<and> array_sum_ptr h arr 0 = Some 0"
  by (simp add: array_sum_ptr_def)

theorem array_sum_ptr_degenerate_witness:
  "array_sum_ptr Map.empty NULL 4 = Some 0 \<and> array_sum_ptr Map.empty NULL 0 = Some 0"
  using array_sum_ptr_degenerate [of 4 Map.empty NULL] by simp

section \<open>Guards of copy and reverse\<close>

text \<open>
  C8: with a positive length, \<open>array_copy_ptr\<close> returns -1 when the destination or the
  source is absent, and \<open>array_reverse_ptr\<close> returns -1 when its sequence is absent;
  in both cases the store after the call is the store before it.
\<close>

theorem copy_reverse_invalid_input:
  "0 < len \<Longrightarrow>
   (dst = NULL \<or> src = NULL \<longrightarrow> array_copy_ptr h dst src len = Some (- 1, h)) \<and>
   array_reverse_ptr h NULL len = Some (- 1, h)"
  by (simp add: array_copy_ptr_def array_reverse_ptr_def)

theorem copy_reverse_invalid_input_witness:
  "array_copy_ptr (Map.empty(7 \<mapsto> 9)) 7 NULL 1 = Some (- 1, Map.empty(7 \<mapsto> 9)) \<and>
   array_reverse_ptr (Map.empty(7 \<mapsto> 9)) NULL 1 = Some (- 1, Map.empty(7 \<mapsto> 9))"
  using copy_reverse_invalid_input [of 1 7 NULL "Map.empty(7 \<mapsto> 9)"] by simp

text \<open>
  C9: with length 0, \<open>array_copy_ptr\<close> and \<open>array_reverse_ptr\<close> return 0 and leave the
  store as it was, for every reference, absent ones included.
\<close>

theorem copy_reverse_empty:
  "array_copy_ptr h dst src 0 = Some (0, h) \<and> array_reverse_ptr h arr 0 = Some (0, h)"
  by (simp add: array_copy_ptr_def array_reverse_ptr_def)

theorem copy_reverse_empty_witness:
  "array_copy_ptr Map.empty NULL NULL 0 = Some (0, Map.empty) \<and>
   array_reverse_ptr Map.empty NULL 0 = Some (0, Map.empty)"
  by (rule copy_reverse_empty)

section \<open>Reverse\<close>

lemma mirror_step:
  assumes l: "left < right - 1" and tmp: "h left = Some tmp" and v: "h (right - 1) = Some v"
  shows "mirror (h(left \<mapsto> v, right - 1 \<mapsto> tmp)) (left + 1) (right - 1) = mirror h left right"
proof (rule ext)
  fix q
  let ?h2 = "h(left \<mapsto> v, right - 1 \<mapsto> tmp)"
  consider "q < left" | "q = left" | "left < q" "q < right - 1" | "q = right - 1" | "right \<le> q"
    by arith
  then show "mirror ?h2 (left + 1) (right - 1) q = mirror h left right q"
  proof cases
    case 1
    with l have "\<not> (left + 1 \<le> q \<and> q < right - 1)" "\<not> (left \<le> q \<and> q < right)"
      "q \<noteq> left" "q \<noteq> right - 1" by arith+
    then show ?thesis unfolding mirror_def by auto
  next
    case 2
    with l have "\<not> (left + 1 \<le> q \<and> q < right - 1)" "left \<le> q \<and> q < right"
      "q \<noteq> right - 1" "left + right - 1 - q = right - 1" by arith+
    with 2 v show ?thesis unfolding mirror_def by auto
  next
    case 3
    let ?j = "left + right - 1 - q"
    from 3 l have "left + 1 \<le> q \<and> q < right - 1" "left \<le> q \<and> q < right"
      "left + 1 + (right - 1) - 1 - q = ?j" "?j \<noteq> left" "?j \<noteq> right - 1" by arith+
    then show ?thesis unfolding mirror_def by auto
  next
    case 4
    with l have "\<not> (left + 1 \<le> q \<and> q < right - 1)" "left \<le> q \<and> q < right"
      "left + right - 1 - q = left" by arith+
    with 4 tmp show ?thesis unfolding mirror_def by auto
  next
    case 5
    with l have "\<not> (left + 1 \<le> q \<and> q < right - 1)" "\<not> (left \<le> q \<and> q < right)"
      "q \<noteq> left" "q \<noteq> right - 1" by arith+
    then show ?thesis unfolding mirror_def by auto
  qed
qed

lemma reverse_loop_mirror:
  "left \<noteq> NULL \<Longrightarrow> \<forall>q. left \<le> q \<and> q < right \<longrightarrow> h q \<noteq> None \<Longrightarrow>
   reverse_loop h left right = Some (mirror h left right)"
proof (induction h left right rule: reverse_loop.induct)
  case (1 h left right)
  show ?case
  proof (cases "left < right")
    case False
    then have "mirror h left right = h"
      by (auto simp: mirror_def fun_eq_iff)
    with False show ?thesis by simp
  next
    case lt: True
    show ?thesis
    proof (cases "left \<ge> right - 1")
      case True
      with lt have "right = Suc left" by arith
      then have "mirror h left right = h"
        by (auto simp: mirror_def fun_eq_iff le_less_Suc_eq)
      with lt True show ?thesis
        by (subst reverse_loop.simps) simp
    next
      case False
      with lt have l: "left < right - 1" by arith
      from l "1.prems"(2) obtain tmp where tmp: "h left = Some tmp" by auto
      from l "1.prems"(2) have "h (right - 1) \<noteq> None" by simp
      then obtain v where v: "h (right - 1) = Some v" by auto
      let ?h1 = "h(left \<mapsto> v)"
      let ?h2 = "?h1(right - 1 \<mapsto> tmp)"
      from l "1.prems"(1) have nz: "left \<noteq> NULL" "right - 1 \<noteq> NULL"
        by (auto simp: NULL_def)
      have ld: "load h left = Some tmp" "load h (right - 1) = Some v"
        using nz tmp v by (simp_all add: load_def)
      have st: "store h left v = Some ?h1" "store ?h1 (right - 1) tmp = Some ?h2"
        using nz tmp v l by (simp_all add: store_def)
      have dom: "\<forall>q. left + 1 \<le> q \<and> q < right - 1 \<longrightarrow> ?h2 q \<noteq> None"
      proof (intro allI impI)
        fix q assume "left + 1 \<le> q \<and> q < right - 1"
        then have "left \<le> q \<and> q < right" by arith
        with "1.prems"(2) have "h q \<noteq> None" by blast
        then show "?h2 q \<noteq> None" by simp
      qed
      have "reverse_loop h left right = reverse_loop ?h2 (left + 1) (right - 1)"
        using lt False ld st by (subst reverse_loop.simps) (simp add: Let_def)
      also have "\<dots> = Some (mirror ?h2 (left + 1) (right - 1))"
        by (rule "1.IH" [OF lt refl False ld st _ dom]) (simp add: NULL_def)
      also have "mirror ?h2 (left + 1) (right - 1) = mirror h left right"
        by (rule mirror_step [OF l tmp v])
      finally show ?thesis .
    qed
  qed
qed

lemma mirror_at:
  "i < len \<Longrightarrow> mirror h arr (arr + len) (arr + i) = h (arr + (len - 1 - i))"
proof -
  assume i: "i < len"
  then have "arr + (arr + len) - 1 - (arr + i) = arr + (len - 1 - i)" by arith
  moreover from i have "arr \<le> arr + i \<and> arr + i < arr + len" by simp
  ultimately show ?thesis unfolding mirror_def by simp
qed

lemma mirror_outside:
  "q \<notin> cells arr len \<Longrightarrow> mirror h arr (arr + len) q = h q"
  by (auto simp: mirror_def cells_def)

lemma mirror_short:
  "len \<le> 1 \<Longrightarrow> mirror h arr (arr + len) = h"
proof (rule ext)
  fix q assume len: "len \<le> 1"
  show "mirror h arr (arr + len) q = h q"
  proof (cases "arr \<le> q \<and> q < arr + len")
    case True
    with len have "q = arr" "len = 1" by arith+
    then show ?thesis by (simp add: mirror_def)
  next
    case False
    then show ?thesis unfolding mirror_def by (rule if_not_P)
  qed
qed

lemma mirror_mirror:
  "mirror (mirror h l r) l r = h"
proof (rule ext)
  fix q
  show "mirror (mirror h l r) l r q = h q"
  proof (cases "l \<le> q \<and> q < r")
    case True
    let ?j = "l + r - 1 - q"
    from True have j: "l \<le> ?j \<and> ?j < r" and jj: "l + r - 1 - ?j = q" by arith+
    from True have "mirror (mirror h l r) l r q = mirror h l r ?j"
      unfolding mirror_def by (rule if_P)
    also from j have "\<dots> = h (l + r - 1 - ?j)"
      unfolding mirror_def by (rule if_P)
    finally show ?thesis by (simp only: jj)
  next
    case False
    then have "mirror (mirror h l r) l r q = mirror h l r q"
      unfolding mirror_def by (rule if_not_P)
    also from False have "\<dots> = h q"
      unfolding mirror_def by (rule if_not_P)
    finally show ?thesis .
  qed
qed

lemma reverse_loop_valid:
  assumes "valid_seq h arr len"
  shows "reverse_loop h arr (arr + len) = Some (mirror h arr (arr + len))"
proof (rule reverse_loop_mirror)
  from assms show "arr \<noteq> NULL" by (simp add: valid_seq_def)
  show "\<forall>q. arr \<le> q \<and> q < arr + len \<longrightarrow> h q \<noteq> None"
    using valid_seq_cells [OF assms] by blast
qed

lemma valid_seq_mirror:
  assumes "valid_seq h arr len"
  shows "valid_seq (mirror h arr (arr + len)) arr len"
proof -
  have "mirror h arr (arr + len) (arr + i) \<noteq> None" if "i \<in> {0..<len}" for i
  proof -
    from that have i: "i < len" by simp
    then have "len - 1 - i \<in> {0..<len}" by auto
    with assms have "h (arr + (len - 1 - i)) \<noteq> None"
      unfolding valid_seq_def by blast
    with i show ?thesis by (simp add: mirror_at)
  qed
  with assms show ?thesis by (simp add: valid_seq_def)
qed

text \<open>
  C1: for a present sequence of \<open>len\<close> elements, \<open>array_reverse_ptr\<close> returns 0 and
  afterwards the element at every position \<open>i < len\<close> is the element that was at
  position \<open>len - 1 - i\<close>; no cell outside the sequence changes, and with \<open>len\<close> 0 or 1
  the store does not change at all.
\<close>

theorem array_reverse_ptr_reverses:
  "valid_seq h arr len \<Longrightarrow>
   (\<exists>h'. array_reverse_ptr h arr len = Some (0, h') \<and>
         (\<forall>i<len. h' (arr + i) = h (arr + (len - 1 - i))) \<and>
         (\<forall>q. q \<notin> cells arr len \<longrightarrow> h' q = h q) \<and>
         (len \<le> 1 \<longrightarrow> h' = h))"
proof -
  assume v: "valid_seq h arr len"
  then have "arr \<noteq> NULL" by (simp add: valid_seq_def)
  with reverse_loop_valid [OF v]
  have "array_reverse_ptr h arr len = Some (0, mirror h arr (arr + len))"
    by (simp add: array_reverse_ptr_def)
  then show ?thesis
    by (simp add: mirror_at mirror_outside mirror_short)
qed

theorem array_reverse_ptr_reverses_witness:
  "valid_seq (Map.empty(4 \<mapsto> 1, 5 \<mapsto> 2, 6 \<mapsto> 3, 7 \<mapsto> 4, 8 \<mapsto> 5)) 4 5 \<and>
   (\<exists>h'. array_reverse_ptr (Map.empty(4 \<mapsto> 1, 5 \<mapsto> 2, 6 \<mapsto> 3, 7 \<mapsto> 4, 8 \<mapsto> 5)) 4 5 = Some (0, h') \<and>
         h' 4 = Some 5 \<and> h' 5 = Some 4 \<and> h' 6 = Some 3 \<and> h' 7 = Some 2 \<and> h' 8 = Some 1)"
proof -
  let ?h = "Map.empty(4 \<mapsto> 1, 5 \<mapsto> 2, 6 \<mapsto> 3, 7 \<mapsto> 4, 8 \<mapsto> (5::cint))"
  have v: "valid_seq ?h 4 5"
    by (simp add: valid_seq_def NULL_def)
  from array_reverse_ptr_reverses [OF v] obtain h' where
    r: "array_reverse_ptr ?h 4 5 = Some (0, h')" and
    e: "\<forall>i<5. h' (4 + i) = ?h (4 + (5 - 1 - i))"
    by blast
  from e [rule_format, of 0] e [rule_format, of 1] e [rule_format, of 2]
    e [rule_format, of 3] e [rule_format, of 4]
  have "h' 4 = Some 5 \<and> h' 5 = Some 4 \<and> h' 6 = Some 3 \<and> h' 7 = Some 2 \<and> h' 8 = Some 1"
    by simp
  with v r show ?thesis by blast
qed

text \<open>
  C5: for a present sequence of \<open>len\<close> elements, two calls of \<open>array_reverse_ptr\<close>
  both return 0 and the second one restores the store of before the first.
\<close>

theorem array_reverse_ptr_involution:
  "valid_seq h arr len \<Longrightarrow>
   (\<exists>h1. array_reverse_ptr h arr len = Some (0, h1) \<and>
         array_reverse_ptr h1 arr len = Some (0, h))"
proof -
  assume v: "valid_seq h arr len"
  let ?h1 = "mirror h arr (arr + len)"
  from v have nz: "arr \<noteq> NULL" by (simp add: valid_seq_def)
  with reverse_loop_valid [OF v]
  have 1: "array_reverse_ptr h arr len = Some (0, ?h1)"
    by (simp add: array_reverse_ptr_def)
  from reverse_loop_valid [OF valid_seq_mirror [OF v]] nz
  have 2: "array_reverse_ptr ?h1 arr len = Some (0, h)"
    by (simp add: array_reverse_ptr_def mirror_mirror)
  from 1 2 show ?thesis by simp
qed

theorem array_reverse_ptr_involution_witness:
  "valid_seq (Map.empty(4 \<mapsto> 7, 5 \<mapsto> 8, 6 \<mapsto> 9)) 4 3 \<and>
   (\<exists>h1. array_reverse_ptr (Map.empty(4 \<mapsto> 7, 5 \<mapsto> 8, 6 \<mapsto> 9)) 4 3 = Some (0, h1) \<and>
         array_reverse_ptr h1 4 3 = Some (0, Map.empty(4 \<mapsto> 7, 5 \<mapsto> 8, 6 \<mapsto> 9)))"
proof -
  have v: "valid_seq (Map.empty(4 \<mapsto> 7, 5 \<mapsto> 8, 6 \<mapsto> 9)) 4 3"
    by (simp add: valid_seq_def NULL_def)
  from v array_reverse_ptr_involution [OF v] show ?thesis by (rule conjI)
qed

section \<open>Copy\<close>

lemma copied_step:
  assumes v: "h s = Some v" and disj: "cells d (Suc n) \<inter> cells s (Suc n) = {}"
  shows "copied (h(d \<mapsto> v)) (Suc d) (Suc s) n = copied h d s (Suc n)"
proof (rule ext)
  fix q
  let ?h1 = "h(d \<mapsto> v)"
  consider "q < d" | "q = d" | "d < q" "q < d + Suc n" | "d + Suc n \<le> q"
    by arith
  then show "copied ?h1 (Suc d) (Suc s) n q = copied h d s (Suc n) q"
  proof cases
    case 1
    then have "copied ?h1 (Suc d) (Suc s) n q = h q" "copied h d s (Suc n) q = h q"
      by (simp_all add: copied_def)
    then show ?thesis by simp
  next
    case 2
    then have "copied ?h1 (Suc d) (Suc s) n q = Some v" "copied h d s (Suc n) q = h s"
      by (simp_all add: copied_def)
    with v show ?thesis by simp
  next
    case 3
    let ?j = "s + (q - d)"
    from 3 have j: "Suc s + (q - Suc d) = ?j" by arith
    from 3 have "s \<le> ?j \<and> ?j < s + Suc n" by arith
    then have "?j \<in> cells s (Suc n)"
      by (simp only: cells_def atLeastLessThan_iff)
    moreover have "d \<in> cells d (Suc n)"
      by (simp add: cells_def)
    moreover from disj have "\<forall>x\<in>cells d (Suc n). \<forall>y\<in>cells s (Suc n). x \<noteq> y"
      by (simp only: disjoint_iff_not_equal)
    ultimately have "d \<noteq> ?j" by (elim ballE) auto
    then have nd: "?j \<noteq> d" by (rule not_sym)
    from 3 have "Suc d \<le> q \<and> q < Suc d + n" by arith
    then have "copied ?h1 (Suc d) (Suc s) n q = ?h1 (Suc s + (q - Suc d))"
      unfolding copied_def by (rule if_P)
    also have "\<dots> = ?h1 ?j" by (simp only: j)
    also have "\<dots> = h ?j" by (rule fun_upd_other [OF nd])
    finally have L: "copied ?h1 (Suc d) (Suc s) n q = h ?j" .
    from 3 have "d \<le> q \<and> q < d + Suc n" by arith
    then have "copied h d s (Suc n) q = h ?j"
      unfolding copied_def by (rule if_P)
    with L show ?thesis by simp
  next
    case 4
    then have "\<not> (Suc d \<le> q \<and> q < Suc d + n)" "\<not> (d \<le> q \<and> q < d + Suc n)" "q \<noteq> d"
      by arith+
    then have "copied ?h1 (Suc d) (Suc s) n q = h q" "copied h d s (Suc n) q = h q"
      unfolding copied_def by auto
    then show ?thesis by simp
  qed
qed

lemma copy_loop_copied:
  "valid_seq h d n \<Longrightarrow> valid_seq h s n \<Longrightarrow> cells d n \<inter> cells s n = {} \<Longrightarrow>
   copy_loop h d s (s + n) = Some (copied h d s n)"
proof (induction n arbitrary: h d s)
  case 0
  have "copied h d s 0 = h" by (auto simp: copied_def fun_eq_iff)
  then show ?case by simp
next
  case (Suc n)
  from Suc.prems(2) obtain v where v: "h s = Some v" and s: "s \<noteq> NULL"
    and vs: "valid_seq h (Suc s) n"
    by (auto simp: valid_seq_Suc)
  from Suc.prems(1) obtain w where d: "d \<noteq> NULL" "h d = Some w"
    and vd: "valid_seq h (Suc d) n"
    by (auto simp: valid_seq_Suc)
  let ?h1 = "h(d \<mapsto> v)"
  have disj: "cells (Suc d) n \<inter> cells (Suc s) n = {}"
  proof -
    from Suc.prems(3) have a: "\<forall>x\<in>cells d (Suc n). \<forall>y\<in>cells s (Suc n). x \<noteq> y"
      by (simp only: disjoint_iff_not_equal)
    have "\<forall>x\<in>cells (Suc d) n. \<forall>y\<in>cells (Suc s) n. x \<noteq> y"
    proof (intro ballI)
      fix x y assume "x \<in> cells (Suc d) n" "y \<in> cells (Suc s) n"
      then have "x \<in> cells d (Suc n)" "y \<in> cells s (Suc n)"
        by (simp_all add: cells_def)
      with a show "x \<noteq> y" by blast
    qed
    then show ?thesis by (simp only: disjoint_iff_not_equal)
  qed
  have "copy_loop h d s (s + Suc n) = copy_loop ?h1 (Suc d) (Suc s) (Suc s + n)"
    using v s d by (subst copy_loop.simps) (simp add: load_def store_def)
  also have "\<dots> = Some (copied ?h1 (Suc d) (Suc s) n)"
    by (rule Suc.IH [OF valid_seq_upd [OF vd] valid_seq_upd [OF vs] disj])
  also have "copied ?h1 (Suc d) (Suc s) n = copied h d s (Suc n)"
    using v Suc.prems(3) by (rule copied_step)
  finally show ?case .
qed

lemma copied_at:
  "i < n \<Longrightarrow> copied h d s n (d + i) = h (s + i)"
  by (simp add: copied_def)

lemma copied_outside:
  "q \<notin> cells d n \<Longrightarrow> copied h d s n q = h q"
  by (auto simp: copied_def cells_def)

text \<open>
  C2: for present sequences \<open>dst\<close> and \<open>src\<close> of \<open>L\<close> elements that do not overlap,
  \<open>array_copy_ptr\<close> returns 0 and afterwards \<open>dst[i] = src[i]\<close> for every \<open>i < L\<close>,
  where \<open>src\<close> still holds what it held before; no cell outside \<open>dst\<close> changes.
\<close>

theorem array_copy_ptr_copies:
  "valid_seq h dst L \<Longrightarrow> valid_seq h src L \<Longrightarrow> cells dst L \<inter> cells src L = {} \<Longrightarrow>
   (\<exists>h'. array_copy_ptr h dst src L = Some (0, h') \<and>
         (\<forall>i<L. h' (dst + i) = h' (src + i) \<and> h' (src + i) = h (src + i)) \<and>
         (\<forall>q. q \<notin> cells dst L \<longrightarrow> h' q = h q))"
proof -
  assume vd: "valid_seq h dst L" and vs: "valid_seq h src L"
    and disj: "cells dst L \<inter> cells src L = {}"
  let ?h' = "copied h dst src L"
  from vd vs have "dst \<noteq> NULL" "src \<noteq> NULL" by (simp_all add: valid_seq_def)
  with copy_loop_copied [OF vd vs disj]
  have run: "array_copy_ptr h dst src L = Some (0, ?h')"
    by (simp add: array_copy_ptr_def)
  have src: "?h' (src + i) = h (src + i)" if "i < L" for i
  proof -
    from that have "src + i \<in> cells src L" by (simp add: cells_def)
    moreover from disj have "\<forall>x\<in>cells dst L. \<forall>y\<in>cells src L. x \<noteq> y"
      by (simp only: disjoint_iff_not_equal)
    ultimately have "src + i \<notin> cells dst L" by blast
    then show ?thesis by (rule copied_outside)
  qed
  from run src show ?thesis
    by (simp add: copied_at copied_outside)
qed

theorem array_copy_ptr_copies_witness:
  "valid_seq (Map.empty(4 \<mapsto> 0, 5 \<mapsto> 0, 6 \<mapsto> 0, 10 \<mapsto> 7, 11 \<mapsto> 8, 12 \<mapsto> 9)) 4 3 \<and>
   valid_seq (Map.empty(4 \<mapsto> 0, 5 \<mapsto> 0, 6 \<mapsto> 0, 10 \<mapsto> 7, 11 \<mapsto> 8, 12 \<mapsto> 9)) 10 3 \<and>
   cells 4 3 \<inter> cells 10 3 = {} \<and>
   (\<exists>h'. array_copy_ptr (Map.empty(4 \<mapsto> 0, 5 \<mapsto> 0, 6 \<mapsto> 0, 10 \<mapsto> 7, 11 \<mapsto> 8, 12 \<mapsto> 9)) 4 10 3 = Some (0, h') \<and>
         h' 4 = Some 7 \<and> h' 5 = Some 8 \<and> h' 6 = Some 9)"
proof -
  let ?h = "Map.empty(4 \<mapsto> 0, 5 \<mapsto> 0, 6 \<mapsto> 0, 10 \<mapsto> 7, 11 \<mapsto> 8, 12 \<mapsto> (9::cint))"
  have vd: "valid_seq ?h 4 3" and vs: "valid_seq ?h 10 3"
    by (simp_all add: valid_seq_def NULL_def)
  have disj: "cells 4 3 \<inter> cells 10 3 = {}"
    by (simp add: cells_def)
  from array_copy_ptr_copies [OF vd vs disj] obtain h' where
    r: "array_copy_ptr ?h 4 10 3 = Some (0, h')" and
    e: "\<forall>i<3. h' (4 + i) = h' (10 + i) \<and> h' (10 + i) = ?h (10 + i)"
    by blast
  from e [rule_format, of 0] e [rule_format, of 1] e [rule_format, of 2]
  have "h' 4 = Some 7 \<and> h' 5 = Some 8 \<and> h' 6 = Some 9"
    by simp
  with vd vs disj r show ?thesis by blast
qed

section \<open>Max\<close>

text \<open>The scan reads only the cells it walks over.\<close>

lemma max_loop_cong:
  "\<forall>q. p \<le> q \<and> q < endp \<longrightarrow> h q = h' q \<Longrightarrow> max_loop h p endp m = max_loop h' p endp m"
proof (induction h p endp m rule: max_loop.induct)
  case (1 h p endp maxv)
  show ?case
  proof (cases "p < endp")
    case False
    then show ?thesis by simp
  next
    case True
    with "1.prems" have eq: "load h p = load h' p" by (simp add: load_def)
    show ?thesis
    proof (cases "load h p")
      case None
      with eq True show ?thesis
        by (simp add: max_loop.simps [of h p] max_loop.simps [of h' p])
    next
      case (Some v)
      from "1.prems" have "\<forall>q. p + 1 \<le> q \<and> q < endp \<longrightarrow> h q = h' q" by simp
      from "1.IH" [OF True Some this] Some eq True show ?thesis
        by (simp add: max_loop.simps [of h p] max_loop.simps [of h' p])
    qed
  qed
qed

text \<open>
  On a present range the scan returns a value that is at least the running maximum it
  started from and at least every cell, and that is the start value or one of the cells.
\<close>

lemma max_loop_spec:
  "valid_seq h p n \<Longrightarrow>
   \<exists>m. max_loop h p (p + n) maxv = Some m \<and> sint maxv \<le> sint m \<and>
       (\<forall>i<n. sint (the (h (p + i))) \<le> sint m) \<and>
       (m = maxv \<or> (\<exists>i<n. h (p + i) = Some m))"
proof (induction n arbitrary: p maxv)
  case 0
  then show ?case by simp
next
  case (Suc n)
  from Suc.prems obtain v where v: "h p = Some v" and p: "p \<noteq> NULL"
    and rest: "valid_seq h (Suc p) n"
    by (auto simp: valid_seq_Suc)
  let ?m1 = "if maxv <s v then v else maxv"
  have step: "max_loop h p (p + Suc n) maxv = max_loop h (Suc p) (Suc p + n) ?m1"
    using v p by (subst max_loop.simps) (simp add: load_def)
  from Suc.IH [OF rest, of ?m1] obtain m where
    m: "max_loop h (Suc p) (Suc p + n) ?m1 = Some m" and ge: "sint ?m1 \<le> sint m"
    and all: "\<forall>i<n. sint (the (h (Suc p + i))) \<le> sint m"
    and ex: "m = ?m1 \<or> (\<exists>i<n. h (Suc p + i) = Some m)"
    by blast
  have m1: "sint maxv \<le> sint ?m1" "sint v \<le> sint ?m1"
    by (auto simp: word_sless_alt)
  have "\<forall>i<Suc n. sint (the (h (p + i))) \<le> sint m"
  proof (intro allI impI)
    fix i assume "i < Suc n"
    show "sint (the (h (p + i))) \<le> sint m"
    proof (cases i)
      case 0
      with v m1 ge show ?thesis by simp
    next
      case (Suc j)
      with \<open>i < Suc n\<close> all have "sint (the (h (Suc p + j))) \<le> sint m" by simp
      with Suc show ?thesis by simp
    qed
  qed
  moreover have "m = maxv \<or> (\<exists>i<Suc n. h (p + i) = Some m)"
  proof -
    from ex consider "m = maxv" | "m = v" | i where "i < n" "h (Suc p + i) = Some m"
      by (auto split: if_splits)
    then show ?thesis
    proof cases
      case 1 then show ?thesis by simp
    next
      case 2
      with v have "h (p + 0) = Some m" by simp
      then show ?thesis by blast
    next
      case 3
      then have "Suc i < Suc n" "h (p + Suc i) = Some m" by simp_all
      then show ?thesis by blast
    qed
  qed
  ultimately show ?case using step m ge m1 by auto
qed

text \<open>The two writes to the flag slot, spelt out for an absent and for a present slot.\<close>

lemma array_max_ptr_no_flag:
  "array_max_ptr h arr len NULL =
     (if arr = NULL \<or> len = 0 then Some (INT_MIN, h)
      else case load h arr of
             None \<Rightarrow> None
           | Some v0 \<Rightarrow> map_option (\<lambda>m. (m, h)) (max_loop h (arr + 1) (arr + len) v0))"
  by (simp add: array_max_ptr_def set_flag_def split: option.splits)

lemma array_max_ptr_flag:
  "ok \<noteq> NULL \<Longrightarrow> h ok \<noteq> None \<Longrightarrow>
   array_max_ptr h arr len ok =
     (if arr = NULL \<or> len = 0 then Some (INT_MIN, h(ok \<mapsto> 0))
      else case load (h(ok \<mapsto> 0)) arr of
             None \<Rightarrow> None
           | Some v0 \<Rightarrow>
               map_option (\<lambda>m. (m, h(ok \<mapsto> 1)))
                 (max_loop (h(ok \<mapsto> 0)) (arr + 1) (arr + len) v0))"
  by (auto simp: array_max_ptr_def set_flag_def store_def split: option.splits)

lemma max_run_flag_outside:
  assumes "ok \<notin> cells arr len" and "0 < len"
  shows "load (h(ok \<mapsto> v)) arr = load h arr"
    and "max_loop (h(ok \<mapsto> v)) (arr + 1) (arr + len) m = max_loop h (arr + 1) (arr + len) m"
proof -
  from assms have "arr \<noteq> ok" by (auto simp: cells_def)
  then show "load (h(ok \<mapsto> v)) arr = load h arr" by (simp add: load_def)
  have "\<forall>q. arr + 1 \<le> q \<and> q < arr + len \<longrightarrow> (h(ok \<mapsto> v)) q = h q"
    using assms(1) by (auto simp: cells_def)
  then show "max_loop (h(ok \<mapsto> v)) (arr + 1) (arr + len) m = max_loop h (arr + 1) (arr + len) m"
    by (rule max_loop_cong)
qed

lemma max_run_valid:
  assumes v: "valid_seq h arr len" and len: "1 \<le> len"
  shows "\<exists>v0 m. load h arr = Some v0 \<and> max_loop h (arr + 1) (arr + len) v0 = Some m \<and>
           (\<forall>i<len. sint (the (h (arr + i))) \<le> sint m) \<and> (\<exists>i<len. h (arr + i) = Some m)"
proof -
  from len obtain n where n: "len = Suc n" by (cases len) auto
  with v obtain v0 where v0: "h arr = Some v0" and nz: "arr \<noteq> NULL"
    and rest: "valid_seq h (Suc arr) n"
    by (auto simp: valid_seq_Suc)
  from max_loop_spec [OF rest, of v0] obtain m where
    m: "max_loop h (Suc arr) (Suc arr + n) v0 = Some m" and ge: "sint v0 \<le> sint m"
    and all: "\<forall>i<n. sint (the (h (Suc arr + i))) \<le> sint m"
    and ex: "m = v0 \<or> (\<exists>i<n. h (Suc arr + i) = Some m)"
    by blast
  have "\<forall>i<len. sint (the (h (arr + i))) \<le> sint m"
  proof (intro allI impI)
    fix i assume i: "i < len"
    show "sint (the (h (arr + i))) \<le> sint m"
    proof (cases i)
      case 0
      with v0 ge show ?thesis by simp
    next
      case (Suc j)
      with i n all have "sint (the (h (Suc arr + j))) \<le> sint m" by simp
      with Suc show ?thesis by simp
    qed
  qed
  moreover have "\<exists>i<len. h (arr + i) = Some m"
  proof -
    from ex consider "m = v0" | i where "i < n" "h (Suc arr + i) = Some m" by blast
    then show ?thesis
    proof cases
      case 1
      with v0 n have "0 < len" "h (arr + 0) = Some m" by simp_all
      then show ?thesis by blast
    next
      case 2
      with n have "Suc i < len" "h (arr + Suc i) = Some m" by simp_all
      then show ?thesis by blast
    qed
  qed
  moreover have "load h arr = Some v0" using v0 nz by (simp add: load_def)
  moreover have "max_loop h (arr + 1) (arr + len) v0 = Some m" using m n by simp
  ultimately show ?thesis by blast
qed

text \<open>
  C6: on invalid input (\<open>arr\<close> absent, or \<open>len = 0\<close>), with the flag slot absent or
  present, \<open>array_max_ptr\<close> returns \<open>INT_MIN\<close>, the integer \<open>-2^31\<close> below which no
  \<open>int\<close> lies, and a present flag slot holds 0 afterwards whatever it held before;
  no other cell changes.
\<close>

theorem array_max_ptr_invalid:
  "arr = NULL \<or> len = 0 \<Longrightarrow> ok = NULL \<or> h ok \<noteq> None \<Longrightarrow>
   (\<exists>h'. array_max_ptr h arr len ok = Some (INT_MIN, h') \<and>
         sint INT_MIN = - (2 ^ 31) \<and> (\<forall>x::cint. sint INT_MIN \<le> sint x) \<and>
         (ok \<noteq> NULL \<longrightarrow> h' ok = Some 0) \<and>
         (\<forall>q. q \<noteq> ok \<longrightarrow> h' q = h q))"
proof -
  assume inv: "arr = NULL \<or> len = 0" and ok: "ok = NULL \<or> h ok \<noteq> None"
  have s: "sint INT_MIN = - (2 ^ 31)" by (simp add: INT_MIN_def)
  have lower: "- 2147483648 \<le> sint x" for x :: cint
    using sint_ge [of x] by simp
  show ?thesis
  proof (cases "ok = NULL")
    case True
    with inv show ?thesis by (simp add: array_max_ptr_no_flag s lower)
  next
    case False
    with ok have "h ok \<noteq> None" by simp
    with False inv show ?thesis by (simp add: array_max_ptr_flag s lower)
  qed
qed

theorem array_max_ptr_invalid_witness:
  "(NULL = NULL \<or> (0::nat) = 0) \<and>
   ((9::ptr) = NULL \<or> (Map.empty(9 \<mapsto> 1) :: heap) 9 \<noteq> None) \<and>
   (\<exists>h'. array_max_ptr (Map.empty(9 \<mapsto> 1)) NULL 0 9 = Some (INT_MIN, h') \<and> h' 9 = Some 0)"
proof -
  have a: "NULL = NULL \<or> (0::nat) = 0" by simp
  have b: "(9::ptr) = NULL \<or> (Map.empty(9 \<mapsto> 1) :: heap) 9 \<noteq> None" by simp
  from array_max_ptr_invalid [of NULL 0 9 "Map.empty(9 \<mapsto> 1)", OF a b] obtain h' where
    "array_max_ptr (Map.empty(9 \<mapsto> 1)) NULL 0 9 = Some (INT_MIN, h')"
    and "9 \<noteq> NULL \<longrightarrow> h' 9 = Some 0"
    by blast
  then show ?thesis using a b by (auto simp: NULL_def)
qed

text \<open>
  C3, amended: for a present sequence of \<open>len \<ge> 1\<close> elements and a flag slot that is
  absent, or present and not one of the cells of the sequence, the value returned by
  \<open>array_max_ptr\<close> is at least every element (as signed integers) and is one of the
  elements; a present flag slot holds 1 afterwards, and no other cell changes.
\<close>

theorem array_max_ptr_is_max:
  "valid_seq h arr len \<Longrightarrow> 1 \<le> len \<Longrightarrow>
   ok = NULL \<or> (h ok \<noteq> None \<and> ok \<notin> cells arr len) \<Longrightarrow>
   (\<exists>m h'. array_max_ptr h arr len ok = Some (m, h') \<and>
      (\<forall>i<len. sint (the (h (arr + i))) \<le> sint m) \<and>
      (\<exists>i<len. h (arr + i) = Some m) \<and>
      (ok \<noteq> NULL \<longrightarrow> h' ok = Some 1) \<and>
      (\<forall>q. q \<noteq> ok \<longrightarrow> h' q = h q))"
proof -
  assume v: "valid_seq h arr len" and len: "1 \<le> len"
    and ok: "ok = NULL \<or> (h ok \<noteq> None \<and> ok \<notin> cells arr len)"
  from v have nz: "arr \<noteq> NULL" by (simp add: valid_seq_def)
  from max_run_valid [OF v len] obtain v0 m where
    ld: "load h arr = Some v0" and run: "max_loop h (arr + 1) (arr + len) v0 = Some m"
    and all: "\<forall>i<len. sint (the (h (arr + i))) \<le> sint m"
    and ex: "\<exists>i<len. h (arr + i) = Some m"
    by blast
  show ?thesis
  proof (cases "ok = NULL")
    case True
    with nz len ld run have "array_max_ptr h arr len ok = Some (m, h)"
      by (simp add: array_max_ptr_no_flag)
    with True all ex show ?thesis by simp
  next
    case False
    with ok have p: "h ok \<noteq> None" and out: "ok \<notin> cells arr len" by simp_all
    from len have pos: "0 < len" by simp
    from False p nz len ld run max_run_flag_outside [OF out pos, of h 0]
    have "array_max_ptr h arr len ok = Some (m, h(ok \<mapsto> 1))"
      by (simp add: array_max_ptr_flag)
    with all ex show ?thesis by simp
  qed
qed

theorem array_max_ptr_is_max_witness:
  "valid_seq (Map.empty(4 \<mapsto> 3, 5 \<mapsto> - 1, 6 \<mapsto> 7, 7 \<mapsto> 2, 9 \<mapsto> 0)) 4 4 \<and>
   ((9::ptr) = NULL \<or> (Map.empty(4 \<mapsto> 3, 5 \<mapsto> - 1, 6 \<mapsto> 7, 7 \<mapsto> 2, 9 \<mapsto> 0) :: heap) 9 \<noteq> None \<and>
      9 \<notin> cells 4 4) \<and>
   (\<exists>h'. array_max_ptr (Map.empty(4 \<mapsto> 3, 5 \<mapsto> - 1, 6 \<mapsto> 7, 7 \<mapsto> 2, 9 \<mapsto> 0)) 4 4 9 = Some (7, h') \<and>
         h' 9 = Some 1)"
proof -
  let ?h = "Map.empty(4 \<mapsto> 3, 5 \<mapsto> - 1, 6 \<mapsto> 7, 7 \<mapsto> 2, 9 \<mapsto> 0) :: heap"
  have v: "valid_seq ?h 4 4"
    by (simp add: valid_seq_def NULL_def)
  have len: "(1::nat) \<le> 4" by simp
  have ok: "(9::ptr) = NULL \<or> (?h 9 \<noteq> None \<and> 9 \<notin> cells 4 4)"
    by (simp add: cells_def)
  from array_max_ptr_is_max [of ?h 4 4 9, OF v len ok] obtain m h' where
    r: "array_max_ptr ?h 4 4 9 = Some (m, h')"
    and ge: "\<forall>i<4. sint (the (?h (4 + i))) \<le> sint m"
    and ex: "\<exists>i<4. ?h (4 + i) = Some m"
    and flag: "9 \<noteq> NULL \<longrightarrow> h' 9 = Some 1"
    by blast
  from ge [rule_format, of 2] have seven: "7 \<le> sint m" by simp
  from ex obtain i where i: "i < 4" and hi: "?h (4 + i) = Some m" by blast
  from i have "i = 0 \<or> i = 1 \<or> i = 2 \<or> i = 3" by arith
  with hi seven have "m = 7" by auto
  with r flag v ok show ?thesis by (auto simp: NULL_def)
qed

text \<open>
  C3 as stated, for every flag slot, fails when the slot is a cell of the sequence:
  with the one-element sequence \<open>[5]\<close> and \<open>ok\<close> pointing at that element, the first
  write \<open>*ok = 0\<close> replaces the element before it is read, the call returns 0, and
  the element is 1 afterwards. The returned 0 is below the element 5 of before the call
  and below the element 1 of after it.
\<close>

theorem array_max_ptr_aliased_flag_counterexample:
  "valid_seq (Map.empty(4 \<mapsto> 5)) 4 1 \<and>
   array_max_ptr (Map.empty(4 \<mapsto> 5)) 4 1 4 = Some (0, Map.empty(4 \<mapsto> 1)) \<and>
   \<not> sint (5 :: cint) \<le> sint (0 :: cint) \<and>
   \<not> sint (1 :: cint) \<le> sint (0 :: cint)"
  by (simp add: valid_seq_def NULL_def array_max_ptr_def set_flag_def store_def load_def)

text \<open>
  C10, amended: for a present flag slot that is not one of the cells of the sequence
  (or with \<open>arr\<close> absent), the call with the flag slot and the call without it return
  the same value (and fault on the same inputs); the call with the slot changes no
  cell but the slot, the call without it changes nothing; and on an absent, empty or
  present sequence the call returns.
\<close>

theorem array_max_ptr_flag_independent:
  "ok \<noteq> NULL \<Longrightarrow> h ok \<noteq> None \<Longrightarrow> arr = NULL \<or> ok \<notin> cells arr len \<Longrightarrow>
   map_option fst (array_max_ptr h arr len ok) = map_option fst (array_max_ptr h arr len NULL) \<and>
   (\<forall>m h'. array_max_ptr h arr len ok = Some (m, h') \<longrightarrow> (\<forall>q. q \<noteq> ok \<longrightarrow> h' q = h q)) \<and>
   (\<forall>m h'. array_max_ptr h arr len NULL = Some (m, h') \<longrightarrow> h' = h) \<and>
   (arr = NULL \<or> len = 0 \<or> valid_seq h arr len \<longrightarrow> array_max_ptr h arr len ok \<noteq> None)"
proof -
  assume ok: "ok \<noteq> NULL" and p: "h ok \<noteq> None" and out: "arr = NULL \<or> ok \<notin> cells arr len"
  show ?thesis
  proof (cases "arr = NULL \<or> len = 0")
    case True
    with ok p show ?thesis
      by (simp add: array_max_ptr_flag array_max_ptr_no_flag)
  next
    case False
    with out have o: "ok \<notin> cells arr len" and pos: "0 < len" by simp_all
    note same = max_run_flag_outside [OF o pos, of h 0]
    have 1: "map_option fst (array_max_ptr h arr len ok) =
             map_option fst (array_max_ptr h arr len NULL)"
      using False ok p same
      by (simp add: array_max_ptr_flag array_max_ptr_no_flag option.map_comp comp_def
          split: option.splits)
    have 2: "\<forall>m h'. array_max_ptr h arr len ok = Some (m, h') \<longrightarrow>
               (\<forall>q. q \<noteq> ok \<longrightarrow> h' q = h q)"
      using False ok p
      by (auto simp: array_max_ptr_flag split: option.splits)
    have 3: "\<forall>m h'. array_max_ptr h arr len NULL = Some (m, h') \<longrightarrow> h' = h"
      using False
      by (auto simp: array_max_ptr_no_flag split: option.splits)
    have 4: "array_max_ptr h arr len ok \<noteq> None" if v: "valid_seq h arr len"
    proof -
      from pos have "1 \<le> len" by simp
      from max_run_valid [OF v this] obtain v0 m where
        "load h arr = Some v0" "max_loop h (arr + 1) (arr + len) v0 = Some m"
        by blast
      with False ok p same show ?thesis
        by (simp add: array_max_ptr_flag)
    qed
    from 1 2 3 4 False show ?thesis by blast
  qed
qed

theorem array_max_ptr_flag_independent_witness:
  "(9::ptr) \<noteq> NULL \<and> (Map.empty(4 \<mapsto> 3, 5 \<mapsto> 7, 9 \<mapsto> 1) :: heap) 9 \<noteq> None \<and>
   ((4::ptr) = NULL \<or> 9 \<notin> cells 4 2) \<and>
   valid_seq (Map.empty(4 \<mapsto> 3, 5 \<mapsto> 7, 9 \<mapsto> 1)) 4 2 \<and>
   map_option fst (array_max_ptr (Map.empty(4 \<mapsto> 3, 5 \<mapsto> 7, 9 \<mapsto> 1)) 4 2 9) =
   map_option fst (array_max_ptr (Map.empty(4 \<mapsto> 3, 5 \<mapsto> 7, 9 \<mapsto> 1)) 4 2 NULL) \<and>
   array_max_ptr (Map.empty(4 \<mapsto> 3, 5 \<mapsto> 7, 9 \<mapsto> 1)) 4 2 9 \<noteq> None"
proof -
  let ?h = "Map.empty(4 \<mapsto> 3, 5 \<mapsto> 7, 9 \<mapsto> 1) :: heap"
  have a: "(9::ptr) \<noteq> NULL" by (simp add: NULL_def)
  have b: "?h 9 \<noteq> None" by simp
  have c: "(4::ptr) = NULL \<or> 9 \<notin> cells 4 2" by (simp add: cells_def)
  have v: "valid_seq ?h 4 2" by (simp add: valid_seq_def NULL_def)
  from array_max_ptr_flag_independent [of 9 ?h 4 2, OF a b c] v a b c show ?thesis by blast
qed

text \<open>
  C10 as stated, for every sequence and flag slot, fails when the slot is a cell of the
  sequence: on \<open>[5]\<close> the call without a flag slot returns 5 and leaves the element,
  the call with \<open>ok\<close> pointing at the element returns 0 and leaves 1 in it.
\<close>

theorem array_max_ptr_flag_dependent_counterexample:
  "array_max_ptr (Map.empty(4 \<mapsto> 5)) 4 1 NULL = Some (5, Map.empty(4 \<mapsto> 5)) \<and>
   array_max_ptr (Map.empty(4 \<mapsto> 5)) 4 1 4 = Some (0, Map.empty(4 \<mapsto> 1)) \<and>
   (5 :: cint) \<noteq> 0 \<and>
   (Map.empty(4 \<mapsto> 1) :: heap) 4 \<noteq> (Map.empty(4 \<mapsto> 5)) 4"
  by (simp add: NULL_def array_max_ptr_def set_flag_def store_def load_def)

end
